theory Spec2Isabelle
  imports Complex_Main
begin

section \<open>Tensors\<close>

text \<open>
  The program in \<^verbatim>\<open>models/compom_no_selection.py\<close> computes on tensors of the
  host library.  A tensor is modelled by its shape and by the value stored at every index;
  values are real numbers, so all arithmetic is exact.  Only the indices inside the shape are
  meaningful, and every statement below reads elements inside the shape only.

  Division of reals is total in HOL (\<open>x / 0 = 0\<close>) where the library produces \<open>nan\<close> or \<open>inf\<close>
  without raising; statements about values therefore keep the divisors away from zero.
\<close>

record tensor =
  shape :: "nat list"
  elem :: "nat list \<Rightarrow> real"

text \<open>
  The exceptions the program can raise: the library's \<open>RuntimeError\<close> for incompatible
  shapes, \<open>IndexError\<close> for a dimension out of range (also \<^verbatim>\<open>shape[1]\<close> of a tensor of
  rank below 2), and the \<open>ValueError\<close> of \<open>polynomial_aggregation_\<close>, whose message
  \<^verbatim>\<open>Unsupported mask dimension: {mask.dim()}. Expected 2, 3, or None.\<close> carries the rank.
\<close>

datatype error = RuntimeError | IndexError | ValueError nat

definition rbind :: "error + 'a \<Rightarrow> ('a \<Rightarrow> error + 'b) \<Rightarrow> error + 'b" where
  "rbind r f = (case r of Inl e \<Rightarrow> Inl e | Inr v \<Rightarrow> f v)"

subsection \<open>Broadcasting\<close>

text \<open>Two sizes are compatible when they are equal or one of them is 1.\<close>

definition bdim :: "nat \<Rightarrow> nat \<Rightarrow> nat option" where
  "bdim a b = (if a = b then Some a else if a = 1 then Some b else if b = 1 then Some a else None)"

fun bzip :: "nat list \<Rightarrow> nat list \<Rightarrow> nat list option" where
  "bzip [] [] = Some []"
| "bzip (a # as) (b # bs) =
     (case bdim a b of None \<Rightarrow> None
      | Some c \<Rightarrow> (case bzip as bs of None \<Rightarrow> None | Some cs \<Rightarrow> Some (c # cs)))"
| "bzip _ _ = None"

definition pad_left :: "nat \<Rightarrow> nat list \<Rightarrow> nat list" where
  "pad_left r s = replicate (r - length s) 1 @ s"

text \<open>Shapes are aligned at their trailing dimensions; the shorter one is padded with 1s.\<close>

definition broadcast_shapes :: "nat list \<Rightarrow> nat list \<Rightarrow> nat list option" where
  "broadcast_shapes s1 s2 =
     (let r = max (length s1) (length s2) in bzip (pad_left r s1) (pad_left r s2))"

text \<open>
  The index, in an operand of shape \<open>s\<close>, of the element that takes part at index \<open>idx\<close>
  of the broadcast result: leading dimensions are dropped and a dimension of size 1 is read
  at 0.
\<close>

definition bindex :: "nat list \<Rightarrow> nat list \<Rightarrow> nat list" where
  "bindex s idx = map2 (\<lambda>n i. if n = 1 then 0 else i) s (drop (length idx - length s) idx)"

definition binop :: "(real \<Rightarrow> real \<Rightarrow> real) \<Rightarrow> tensor \<Rightarrow> tensor \<Rightarrow> error + tensor" where
  "binop f a b =
     (case broadcast_shapes (shape a) (shape b) of
        None \<Rightarrow> Inl RuntimeError
      | Some s \<Rightarrow>
          Inr \<lparr>shape = s,
               elem = (\<lambda>idx. f (elem a (bindex (shape a) idx)) (elem b (bindex (shape b) idx)))\<rparr>)"

definition mul :: "tensor \<Rightarrow> tensor \<Rightarrow> error + tensor" where
  "mul = binop (\<lambda>u v. u * v)"

definition add :: "tensor \<Rightarrow> tensor \<Rightarrow> error + tensor" where
  "add = binop (\<lambda>u v. u + v)"

definition divide_t :: "tensor \<Rightarrow> tensor \<Rightarrow> error + tensor" where
  "divide_t = binop (\<lambda>u v. u / v)"

text \<open>Arithmetic between a Python number and a tensor keeps the shape.\<close>

definition pointwise :: "(real \<Rightarrow> real) \<Rightarrow> tensor \<Rightarrow> tensor" where
  "pointwise f a = \<lparr>shape = shape a, elem = (\<lambda>idx. f (elem a idx))\<rparr>"

definition scalar_mul :: "real \<Rightarrow> tensor \<Rightarrow> tensor" where
  "scalar_mul c = pointwise (\<lambda>v. c * v)"

definition scalar_add :: "real \<Rightarrow> tensor \<Rightarrow> tensor" where
  "scalar_add c = pointwise (\<lambda>v. c + v)"

definition scalar_div :: "tensor \<Rightarrow> real \<Rightarrow> tensor" where
  "scalar_div a c = pointwise (\<lambda>v. v / c) a"

text \<open>\<^verbatim>\<open>h ** i\<close> for a Python integer \<open>i \<ge> 0\<close>; the library has \<open>0 ** 0 = 1\<close>, as HOL has.\<close>

definition pow_t :: "tensor \<Rightarrow> nat \<Rightarrow> tensor" where
  "pow_t a i = pointwise (\<lambda>v. v ^ i) a"

subsection \<open>Reshaping, concatenation and reduction\<close>

text \<open>\<^verbatim>\<open>a.unsqueeze(-1)\<close>\<close>

definition unsqueeze_last :: "tensor \<Rightarrow> tensor" where
  "unsqueeze_last a = \<lparr>shape = shape a @ [1], elem = (\<lambda>idx. elem a (butlast idx))\<rparr>"

text \<open>
  \<^verbatim>\<open>torch.cat(ts, dim=-1)\<close>: the list must not be empty and the tensors must agree
  in every dimension but the last.
\<close>

fun cat_elem :: "tensor list \<Rightarrow> nat list \<Rightarrow> nat \<Rightarrow> real" where
  "cat_elem [] p j = 0"
| "cat_elem (t # ts) p j =
     (if j < last (shape t) then elem t (p @ [j]) else cat_elem ts p (j - last (shape t)))"

definition cat_last :: "tensor list \<Rightarrow> error + tensor" where
  "cat_last ts =
     (case ts of
        [] \<Rightarrow> Inl RuntimeError
      | t # _ \<Rightarrow>
          if shape t \<noteq> [] \<and> list_all (\<lambda>u. shape u \<noteq> [] \<and> butlast (shape u) = butlast (shape t)) ts
          then Inr \<lparr>shape = butlast (shape t) @ [sum_list (map (\<lambda>u. last (shape u)) ts)],
                    elem = (\<lambda>idx. cat_elem ts (butlast idx) (last idx))\<rparr>
          else Inl RuntimeError)"

text \<open>\<^verbatim>\<open>a.sum(-1)\<close>, on a tensor of rank at least 1.\<close>

definition sum_last :: "tensor \<Rightarrow> error + tensor" where
  "sum_last a =
     (if shape a = [] then Inl RuntimeError
      else Inr \<lparr>shape = butlast (shape a),
                elem = (\<lambda>idx. \<Sum>j<last (shape a). elem a (idx @ [j]))\<rparr>)"

text \<open>
  \<^verbatim>\<open>a.sum(dim=d, keepdims=True)\<close> and \<^verbatim>\<open>a.mean(dim=d, keepdims=True)\<close>; a dimension
  out of range is an \<open>IndexError\<close>.
\<close>

definition sum_keep :: "nat \<Rightarrow> tensor \<Rightarrow> error + tensor" where
  "sum_keep d a =
     (if d < length (shape a)
      then Inr \<lparr>shape = (shape a)[d := 1],
                elem = (\<lambda>idx. \<Sum>j<shape a ! d. elem a (idx[d := j]))\<rparr>
      else Inl IndexError)"

definition mean_keep :: "nat \<Rightarrow> tensor \<Rightarrow> error + tensor" where
  "mean_keep d a =
     (if d < length (shape a)
      then Inr \<lparr>shape = (shape a)[d := 1],
                elem = (\<lambda>idx. (\<Sum>j<shape a ! d. elem a (idx[d := j])) / real (shape a ! d))\<rparr>
      else Inl IndexError)"

text \<open>
  \<^verbatim>\<open>a.expand(target)\<close>: the target has at least the rank of \<open>a\<close>; aligned at the
  trailing dimensions, every size of \<open>a\<close> equals the target's or is 1.
\<close>

definition expandable :: "nat list \<Rightarrow> nat list \<Rightarrow> bool" where
  "expandable s target \<longleftrightarrow>
     length s \<le> length target \<and>
     list_all2 (\<lambda>n m. n = m \<or> n = 1) s (drop (length target - length s) target)"

definition expand :: "tensor \<Rightarrow> nat list \<Rightarrow> error + tensor" where
  "expand a target =
     (if expandable (shape a) target
      then Inr \<lparr>shape = target, elem = (\<lambda>idx. elem a (bindex (shape a) idx))\<rparr>
      else Inl RuntimeError)"

text \<open>
  \<^verbatim>\<open>torch.einsum('bnd, bmn -> bmd', h, mask)\<close>: both operands have rank 3, the sizes
  named \<open>b\<close> and those named \<open>n\<close> must be compatible, and \<open>n\<close> is summed over.
\<close>

definition einsum_bnd_bmn_bmd :: "tensor \<Rightarrow> tensor \<Rightarrow> error + tensor" where
  "einsum_bnd_bmn_bmd h msk =
     (case (shape h, shape msk) of
        ([b1, n1, d], [b2, m, n2]) \<Rightarrow>
          (case (bdim b1 b2, bdim n1 n2) of
             (Some b, Some n) \<Rightarrow>
               Inr \<lparr>shape = [b, m, d],
                    elem = (\<lambda>idx. \<Sum>j<n. elem h (bindex (shape h) [idx ! 0, j, idx ! 2])
                                         * elem msk (bindex (shape msk) [idx ! 0, idx ! 1, j]))\<rparr>
           | _ \<Rightarrow> Inl RuntimeError)
      | _ \<Rightarrow> Inl RuntimeError)"

section \<open>Core polynomial functions\<close>

text \<open>
  \<^verbatim>\<open>F.gelu(x)\<close> is \<open>x \<cdot> \<Phi>(x)\<close> with \<open>\<Phi>\<close> the distribution function of the standard
  normal law, \<open>\<Phi>(x) = (1 + erf (x / \<surd>2)) / 2\<close>; the error function is given by its power series.
\<close>

definition erf :: "real \<Rightarrow> real" where
  "erf x = 2 / sqrt pi * (\<Sum>n. (- 1) ^ n * x ^ (2 * n + 1) / (fact n * real (2 * n + 1)))"

definition gelu_scalar :: "real \<Rightarrow> real" where
  "gelu_scalar x = x * ((1 + erf (x / sqrt 2)) / 2)"

definition gelu :: "tensor \<Rightarrow> tensor" where
  "gelu x = pointwise gelu_scalar x"

definition po2 :: "tensor \<Rightarrow> tensor \<Rightarrow> error + tensor" where
  "po2 x coeff =
     (let h = unsqueeze_last (gelu x) in
      rbind (mul h h) (\<lambda>h2.
      rbind (cat_last [h, h2]) (\<lambda>h.
      rbind (mul h coeff) sum_last)))"

definition po3 :: "tensor \<Rightarrow> tensor \<Rightarrow> error + tensor" where
  "po3 x coeff =
     (let h = unsqueeze_last (gelu x) in
      rbind (mul h h) (\<lambda>h2.
      rbind (mul h2 h) (\<lambda>h3.
      rbind (cat_last [h, h2, h3]) (\<lambda>h.
      rbind (mul h coeff) sum_last))))"

definition po4 :: "tensor \<Rightarrow> tensor \<Rightarrow> error + tensor" where
  "po4 x coeff =
     (let h = unsqueeze_last (gelu x) in
      rbind (mul h h) (\<lambda>h2.
      rbind (mul h2 h) (\<lambda>h3.
      rbind (mul h3 h) (\<lambda>h4.
      rbind (cat_last [h, h2, h3, h4]) (\<lambda>h.
      rbind (mul h coeff) sum_last)))))"

section \<open>Masking and aggregation functions\<close>

text \<open>
  The conversions \<^verbatim>\<open>mask.type(h.dtype)\<close> and \<^verbatim>\<open>mask.to(h.device)\<close> change neither shape nor
  value, and \<^verbatim>\<open>@torch.compile\<close> does not change what a function computes; none of them
  appears below.  The constant \<^verbatim>\<open>1.e-7\<close> is \<open>1 / 10\<^sup>7\<close>.
\<close>

definition mask_mixer :: "tensor \<Rightarrow> tensor \<Rightarrow> error + tensor" where
  "mask_mixer h msk =
     rbind (mul h (unsqueeze_last msk)) (\<lambda>hm.
     rbind (sum_keep 1 hm) (\<lambda>num.
     rbind (sum_keep 1 (unsqueeze_last msk)) (\<lambda>den.
     divide_t num (scalar_add (1 / 10 ^ 7) den))))"

definition full_mask_mixer :: "tensor \<Rightarrow> tensor \<Rightarrow> error + tensor" where
  "full_mask_mixer h msk =
     rbind (einsum_bnd_bmn_bmd h msk) (\<lambda>h.
     rbind (sum_keep 2 msk) (\<lambda>den.
     divide_t h (scalar_add (1 / 10 ^ 7) den)))"

section \<open>Polynomial aggregation\<close>

text \<open>
  The branch of \<open>polynomial_aggregation_\<close> for the orders other than 2, 3 and 4 (lines
  128 to 130): the powers \<^verbatim>\<open>h ** i for i in range(k)\<close> are concatenated and contracted with
  the coefficients.  \<^verbatim>\<open>range(k)\<close> is empty for \<open>k \<le> 0\<close>.
\<close>

definition generic_expansion :: "tensor \<Rightarrow> tensor \<Rightarrow> int \<Rightarrow> error + tensor" where
  "generic_expansion x coeff k =
     (let h = unsqueeze_last (gelu x) in
      rbind (cat_last (map (\<lambda>i. pow_t h i) [0..<nat k])) (\<lambda>h.
      rbind (mul h coeff) sum_last))"

definition expansion :: "tensor \<Rightarrow> tensor \<Rightarrow> int \<Rightarrow> error + tensor" where
  "expansion x coeff k =
     (if k = 2 then po2 x coeff
      else if k = 3 then po3 x coeff
      else if k = 4 then po4 x coeff
      else generic_expansion x coeff k)"

definition polynomial_aggregation ::
    "tensor \<Rightarrow> tensor \<Rightarrow> int \<Rightarrow> tensor option \<Rightarrow> error + tensor" where
  "polynomial_aggregation x coeff k msk =
     rbind (expansion x coeff k) (\<lambda>h.
     rbind (case msk of
              None \<Rightarrow> mean_keep 1 h
            | Some m \<Rightarrow>
                if length (shape m) = 2 then mask_mixer h m
                else if length (shape m) = 3 then full_mask_mixer h m
                else Inl (ValueError (length (shape m)))) (\<lambda>h.
     expand h (shape x)))"

definition pom :: "tensor \<Rightarrow> tensor \<Rightarrow> int \<Rightarrow> tensor option \<Rightarrow> error + tensor" where
  "pom xc coeff k msk = polynomial_aggregation xc coeff k msk"

section \<open>The module\<close>

text \<open>
  \<^verbatim>\<open>nn.Linear\<close>: a weight of shape \<open>(out, in)\<close> and an optional bias of shape \<open>(out)\<close>.
  Applied to \<open>x\<close> of shape \<open>(..., in)\<close> it returns \<open>x W\<^sup>T + b\<close> of shape \<open>(..., out)\<close>.
\<close>

record linear =
  weight :: tensor
  bias :: "tensor option"

definition matmul_transposed :: "tensor \<Rightarrow> tensor \<Rightarrow> error + tensor" where
  "matmul_transposed x w =
     (case shape w of
        [out, inn] \<Rightarrow>
          if shape x \<noteq> [] \<and> last (shape x) = inn
          then Inr \<lparr>shape = butlast (shape x) @ [out],
                    elem = (\<lambda>idx. \<Sum>i<inn. elem x (butlast idx @ [i]) * elem w [last idx, i])\<rparr>
          else Inl RuntimeError
      | _ \<Rightarrow> Inl RuntimeError)"

definition linear_apply :: "linear \<Rightarrow> tensor \<Rightarrow> error + tensor" where
  "linear_apply l x =
     rbind (matmul_transposed x (weight l)) (\<lambda>y.
       case bias l of None \<Rightarrow> Inr y | Some b \<Rightarrow> add y b)"

record ComPoM =
  dim :: nat
  order :: int
  order_expand :: nat
  po_proj :: linear
  po_coeff :: tensor
  ag_proj :: linear

text \<open>
  The shapes \<open>__init__\<close> gives to the parameters of a module built with
  \<open>dim\<close>, \<open>degree\<close> and \<open>expand\<close>; the values of the parameters are arbitrary.
\<close>

definition linear_shapes :: "linear \<Rightarrow> nat \<Rightarrow> nat \<Rightarrow> bool" where
  "linear_shapes l inn out \<longleftrightarrow>
     shape (weight l) = [out, inn] \<and> (case bias l of None \<Rightarrow> True | Some b \<Rightarrow> shape b = [out])"

definition initialised :: "ComPoM \<Rightarrow> bool" where
  "initialised self \<longleftrightarrow>
     0 \<le> order self \<and>
     linear_shapes (po_proj self) (dim self) (order_expand self * dim self) \<and>
     shape (po_coeff self) = [dim self * order_expand self, nat (order self)] \<and>
     linear_shapes (ag_proj self) (order_expand self * dim self) (dim self)"

definition forward :: "ComPoM \<Rightarrow> tensor \<Rightarrow> tensor option \<Rightarrow> tensor option \<Rightarrow> error + tensor" where
  "forward self xq xc msk =
     (let xc = (case xc of None \<Rightarrow> xq | Some c \<Rightarrow> c) in
      rbind (linear_apply (po_proj self) xc) (\<lambda>h.
      rbind (pom h (po_coeff self) (order self) msk) (\<lambda>sh.
      linear_apply (ag_proj self) sh)))"

text \<open>The state dictionary, with its keys \<^verbatim>\<open>'h'\<close> and \<^verbatim>\<open>'n'\<close>.\<close>

record state =
  state_h :: tensor
  state_n :: int

definition state_forward ::
    "ComPoM \<Rightarrow> tensor \<Rightarrow> tensor option \<Rightarrow> state option \<Rightarrow> error + tensor \<times> state" where
  "state_forward self xq xc st =
     (let xc = (case xc of None \<Rightarrow> xq | Some c \<Rightarrow> c) in
      rbind (linear_apply (po_proj self) xc) (\<lambda>xc.
      rbind (polynomial_aggregation xc (po_coeff self) (order self) None) (\<lambda>h_current.
      if length (shape h_current) < 2 then Inl IndexError
      else
        let n_current = int (shape h_current ! 1) in
        rbind (case st of
                 Some s \<Rightarrow>
                   let h_past = state_h s; n_past = state_n s in
                   rbind (add (scalar_mul (real_of_int n_past) h_past)
                              (scalar_mul (real_of_int n_current) h_current)) (\<lambda>sm.
                   Inr (scalar_div sm (real_of_int (n_past + n_current)), n_past))
               | None \<Rightarrow> Inr (h_current, 0)) (\<lambda>(h, n_past).
        rbind (linear_apply (ag_proj self) h) (\<lambda>out.
        Inr (out, \<lparr>state_h = h, state_n = n_past + n_current\<rparr>))))))"

section \<open>Callers and concrete inputs\<close>

text \<open>
  A caller that streams chunks: every call of \<open>state_forward\<close> receives the state the
  previous call returned, the first one receives \<open>None\<close>, and the first exception ends the run.
  A chunk is the pair of arguments \<open>(xq, xc)\<close>.
\<close>

fun thread_state ::
    "ComPoM \<Rightarrow> state option \<Rightarrow> (tensor \<times> tensor option) list \<Rightarrow> error + state option" where
  "thread_state self st [] = Inr st"
| "thread_state self st ((xq, xc) # rest) =
     rbind (state_forward self xq xc st) (\<lambda>(out, st'). thread_state self (Some st') rest)"

definition count :: "state option \<Rightarrow> int" where
  "count st = (case st of None \<Rightarrow> 0 | Some s \<Rightarrow> state_n s)"

text \<open>The tensor the module mixes: \<^verbatim>\<open>if xc is None: xc = xq\<close>.\<close>

definition context_of :: "tensor \<times> tensor option \<Rightarrow> tensor" where
  "context_of c = (case snd c of None \<Rightarrow> fst c | Some xc \<Rightarrow> xc)"

text \<open>
  \<^verbatim>\<open>torch.full(s, v)\<close>, and tensors of rank 2 and 3 written as nested lists, none of them
  empty.
\<close>

definition full :: "nat list \<Rightarrow> real \<Rightarrow> tensor" where
  "full s v = \<lparr>shape = s, elem = (\<lambda>_. v)\<rparr>"

definition of_rows :: "real list list \<Rightarrow> tensor" where
  "of_rows rows =
     \<lparr>shape = [length rows, length (hd rows)], elem = (\<lambda>idx. rows ! (idx ! 0) ! (idx ! 1))\<rparr>"


text \<open>What is observed of a result: its shape, or one of its elements.\<close>

definition res_shape :: "error + tensor \<Rightarrow> error + nat list" where
  "res_shape r = map_sum id shape r"

definition res_elem :: "error + tensor \<Rightarrow> nat list \<Rightarrow> error + real" where
  "res_elem r idx = map_sum id (\<lambda>t. elem t idx) r"

definition call_shapes :: "error + tensor \<times> state \<Rightarrow> error + nat list \<times> nat list \<times> int" where
  "call_shapes r = map_sum id (\<lambda>(out, st). (shape out, shape (state_h st), state_n st)) r"

text \<open>
  A module with \<open>dim = 1\<close>, \<open>degree = 2\<close>, \<open>expand = 1\<close> and no bias, whose projections
  are the identity and whose coefficients are both 1.
\<close>

definition module_1_2_1 :: ComPoM where
  "module_1_2_1 =
     \<lparr>dim = 1, order = 2, order_expand = 1,
      po_proj = \<lparr>weight = of_rows [[1]], bias = None\<rparr>,
      po_coeff = of_rows [[1, 1]],
      ag_proj = \<lparr>weight = of_rows [[1]], bias = None\<rparr>\<rparr>"

section \<open>What one call computes\<close>

text \<open>
  The polynomial that the expansion applies to one activated element \<open>g\<close> of channel \<open>d\<close>:
  the closed forms use the powers \<open>g\<^sup>1, \<dots>, g\<^sup>k\<close>, the generic branch \<open>g\<^sup>0, \<dots>, g\<^sup>k\<^sup>-\<^sup>1\<close>
  (lemma \<open>expansion_value\<close> below).
\<close>

definition poly_term :: "int \<Rightarrow> tensor \<Rightarrow> nat \<Rightarrow> real \<Rightarrow> real" where
  "poly_term k coeff d g =
     (\<Sum>j<nat k. g ^ (if k = 2 \<or> k = 3 \<or> k = 4 then Suc j else j) * elem coeff [d, j])"

text \<open>
  The expanded feature of position \<open>t\<close> of a context \<open>x\<close>: the input projection, the
  activation and the polynomial.
\<close>

definition feature :: "ComPoM \<Rightarrow> tensor \<Rightarrow> nat \<Rightarrow> nat \<Rightarrow> nat \<Rightarrow> real" where
  "feature self x b t d =
     poly_term (order self) (po_coeff self) d
       (gelu_scalar ((\<Sum>i<dim self. elem x [b, t, i] * elem (weight (po_proj self)) [d, i])
                      + (case bias (po_proj self) of None \<Rightarrow> 0 | Some v \<Rightarrow> elem v [d])))"

text \<open>
  The aggregate of a context without a mask, before the output projection: the first two
  steps of \<open>state_forward\<close>, and of \<open>forward\<close> when no mask is given.
\<close>

definition aggregate_of :: "ComPoM \<Rightarrow> tensor \<Rightarrow> error + tensor" where
  "aggregate_of self x =
     rbind (linear_apply (po_proj self) x) (\<lambda>y.
       polynomial_aggregation y (po_coeff self) (order self) None)"

text \<open>\<^verbatim>\<open>torch.cat([a, b], dim=1)\<close> of two tensors of rank 3 that agree in the other dimensions.\<close>

definition cat_seq :: "tensor \<Rightarrow> tensor \<Rightarrow> tensor" where
  "cat_seq a b =
     \<lparr>shape = [shape a ! 0, shape a ! 1 + shape b ! 1, shape a ! 2],
      elem = (\<lambda>idx. if idx ! 1 < shape a ! 1 then elem a idx
                     else elem b (idx[1 := idx ! 1 - shape a ! 1]))\<rparr>"

section \<open>Shapes\<close>

lemma gelu_scalar_0: "gelu_scalar 0 = 0"
  by (simp add: gelu_scalar_def)

lemma bindex_in_range: "list_all2 (\<lambda>i n. i < n) idx s \<Longrightarrow> bindex s idx = idx"
proof -
  assume a: "list_all2 (\<lambda>i n. i < n) idx s"
  then have len: "length idx = length s" by (rule list_all2_lengthD)
  from a have "map2 (\<lambda>n i. if n = 1 then 0 else i) s idx = idx"
    by (induction idx s rule: list_all2_induct) auto
  with len show ?thesis by (simp add: bindex_def)
qed

lemma broadcast_4_2: "broadcast_shapes [B, T, D, n] [D, n] = Some [B, T, D, n]"
  by (simp add: broadcast_shapes_def pad_left_def bdim_def)

lemma unsq_gelu_shape: "shape (unsqueeze_last (gelu x)) = shape x @ [1]"
  by (simp add: unsqueeze_last_def gelu_def pointwise_def)

lemma bzip_same: "bzip s s = Some s"
  by (induction s) (auto simp: bdim_def)

lemma broadcast_same: "broadcast_shapes s s = Some s"
  by (simp add: broadcast_shapes_def pad_left_def bzip_same)

lemma mul_same_shape: "shape a = shape b \<Longrightarrow> \<exists>c. mul a b = Inr c \<and> shape c = shape a"
  by (simp add: mul_def binop_def broadcast_same)

lemma contract_shape:
  assumes "shape h = [B, T, D, n]" "shape coeff = [D, n]"
  shows "\<exists>r. rbind (mul h coeff) sum_last = Inr r \<and> shape r = [B, T, D]"
  using assms by (simp add: mul_def binop_def broadcast_4_2 rbind_def sum_last_def)

lemma po2_shape:
  assumes "shape x = [B, T, D]" "shape coeff = [D, 2]"
  shows "\<exists>r. po2 x coeff = Inr r \<and> shape r = [B, T, D]"
proof -
  let ?h = "unsqueeze_last (gelu x)"
  have sh: "shape ?h = [B, T, D, 1]" using assms by (simp add: unsq_gelu_shape)
  obtain h2 where h2: "mul ?h ?h = Inr h2" "shape h2 = [B, T, D, 1]"
    using mul_same_shape[of ?h ?h] sh by auto
  obtain c where c: "cat_last [?h, h2] = Inr c" "shape c = [B, T, D, 2]"
    using sh h2 by (simp add: cat_last_def)
  from contract_shape[OF c(2) assms(2)] show ?thesis
    using h2 c by (simp add: po2_def Let_def rbind_def)
qed

lemma po3_shape:
  assumes "shape x = [B, T, D]" "shape coeff = [D, 3]"
  shows "\<exists>r. po3 x coeff = Inr r \<and> shape r = [B, T, D]"
proof -
  let ?h = "unsqueeze_last (gelu x)"
  have sh: "shape ?h = [B, T, D, 1]" using assms by (simp add: unsq_gelu_shape)
  obtain h2 where h2: "mul ?h ?h = Inr h2" "shape h2 = [B, T, D, 1]"
    using mul_same_shape[of ?h ?h] sh by auto
  obtain h3 where h3: "mul h2 ?h = Inr h3" "shape h3 = [B, T, D, 1]"
    using mul_same_shape[of h2 ?h] sh h2 by auto
  obtain c where c: "cat_last [?h, h2, h3] = Inr c" "shape c = [B, T, D, 3]"
    using sh h2 h3 by (simp add: cat_last_def)
  from contract_shape[OF c(2) assms(2)] show ?thesis
    using h2 h3 c by (simp add: po3_def Let_def rbind_def)
qed

lemma po4_shape:
  assumes "shape x = [B, T, D]" "shape coeff = [D, 4]"
  shows "\<exists>r. po4 x coeff = Inr r \<and> shape r = [B, T, D]"
proof -
  let ?h = "unsqueeze_last (gelu x)"
  have sh: "shape ?h = [B, T, D, 1]" using assms by (simp add: unsq_gelu_shape)
  obtain h2 where h2: "mul ?h ?h = Inr h2" "shape h2 = [B, T, D, 1]"
    using mul_same_shape[of ?h ?h] sh by auto
  obtain h3 where h3: "mul h2 ?h = Inr h3" "shape h3 = [B, T, D, 1]"
    using mul_same_shape[of h2 ?h] sh h2 by auto
  obtain h4 where h4: "mul h3 ?h = Inr h4" "shape h4 = [B, T, D, 1]"
    using mul_same_shape[of h3 ?h] sh h3 by auto
  obtain c where c: "cat_last [?h, h2, h3, h4] = Inr c" "shape c = [B, T, D, 4]"
    using sh h2 h3 h4 by (simp add: cat_last_def)
  from contract_shape[OF c(2) assms(2)] show ?thesis
    using h2 h3 h4 c by (simp add: po4_def Let_def rbind_def)
qed

lemma cat_pows_shape:
  assumes "shape h = s @ [1]" "0 < n"
  shows "\<exists>c. cat_last (map (\<lambda>i. pow_t h i) [0..<n]) = Inr c \<and> shape c = s @ [n]"
proof -
  have 1: "[0..<n] = 0 # [1..<n]" using assms(2) by (simp add: upt_conv_Cons)
  have 2: "sum_list (map (\<lambda>u. last (shape u)) (map (\<lambda>i. pow_t h i) [0..<n])) = n"
    using assms(1) by (simp add: pow_t_def pointwise_def comp_def sum_list_triv)
  have 3: "list_all (\<lambda>u. shape u \<noteq> [] \<and> butlast (shape u) = s) (map (\<lambda>i. pow_t h i) [0..<n])"
    using assms(1) by (simp add: list_all_iff pow_t_def pointwise_def)
  have 4: "shape (pow_t h 0) = s @ [1]" using assms(1) by (simp add: pow_t_def pointwise_def)
  show ?thesis
    using 2 3 4 unfolding cat_last_def by (simp add: 1)
qed

lemma generic_expansion_shape:
  assumes "shape x = [B, T, D]" "shape coeff = [D, nat k]" "0 < k"
  shows "\<exists>r. generic_expansion x coeff k = Inr r \<and> shape r = [B, T, D]"
proof -
  let ?h = "unsqueeze_last (gelu x)"
  have sh: "shape ?h = [B, T, D] @ [1]" using assms by (simp add: unsq_gelu_shape)
  obtain c where c: "cat_last (map (\<lambda>i. pow_t ?h i) [0..<nat k]) = Inr c" "shape c = [B, T, D, nat k]"
    using cat_pows_shape[OF sh, of "nat k"] assms(3) by auto
  from contract_shape[OF c(2) assms(2)] show ?thesis
    using c by (simp add: generic_expansion_def Let_def rbind_def)
qed

lemma expansion_shape:
  assumes "shape x = [B, T, D]" "shape coeff = [D, nat k]" "0 < k"
  shows "\<exists>r. expansion x coeff k = Inr r \<and> shape r = [B, T, D]"
  using assms po2_shape[of x B T D coeff] po3_shape[of x B T D coeff] po4_shape[of x B T D coeff]
    generic_expansion_shape[of x B T D coeff k]
  by (auto simp: expansion_def)

lemma bindex3:
  "b < B \<Longrightarrow> t < T \<Longrightarrow> d < D \<Longrightarrow> bindex [B, T, D] [b, t, d] = [b, t, d]"
  by (rule bindex_in_range) simp

lemma bindex3_mid:
  "b < B \<Longrightarrow> d < D \<Longrightarrow> bindex [B, Suc 0, D] [b, t, d] = [b, 0, d]"
  by (auto simp: bindex_def)

lemma bindex3_last:
  "b < B \<Longrightarrow> t < T \<Longrightarrow> bindex [B, T, Suc 0] [b, t, d] = [b, t, 0]"
  by (auto simp: bindex_def)




lemma expandable_mid: "expandable [B, Suc 0, D] [B, T, D]"
  by (simp add: expandable_def)


lemma agg_none:
  assumes "expansion x coeff k = Inr h" "shape h = [B, T, D]" "shape x = [B, T, D]"
  shows "\<exists>r. polynomial_aggregation x coeff k None = Inr r \<and> shape r = [B, T, D] \<and>
           (\<forall>b<B. \<forall>t<T. \<forall>d<D. elem r [b, t, d] = (\<Sum>j<T. elem h [b, j, d]) / real T)"
  using assms
  by (simp add: polynomial_aggregation_def rbind_def mean_keep_def expand_def expandable_mid bindex3_mid)


lemma rbind_Inr: "rbind (Inr v) f = f v"
  by (simp add: rbind_def)

lemma rbind_Inl: "rbind (Inl e) f = Inl e"
  by (simp add: rbind_def)

lemma broadcast_3_1: "broadcast_shapes [B, T, D] [D] = Some [B, T, D]"
  by (simp add: broadcast_shapes_def pad_left_def bdim_def)

lemma linear_apply_shape:
  assumes "linear_shapes l inn out" and "shape x = [B, T, inn]"
  shows "\<exists>y. linear_apply l x = Inr y \<and> shape y = [B, T, out]"
  using assms
  by (auto simp: linear_shapes_def linear_apply_def matmul_transposed_def rbind_def add_def
      binop_def broadcast_3_1 split: option.splits)

lemma linear_apply_success:
  assumes "linear_shapes l inn out" and "linear_apply l x = Inr y" and "shape x = [B, T, D]"
  shows "shape y = [B, T, out]"
  using assms
  by (auto simp: linear_shapes_def linear_apply_def matmul_transposed_def rbind_def add_def
      binop_def broadcast_3_1 split: option.splits if_splits)

lemma aggregation_success_shape:
  assumes "polynomial_aggregation x coeff k msk = Inr r"
  shows "shape r = shape x"
  using assms
  by (auto simp: polynomial_aggregation_def rbind_def expand_def split: sum.splits if_splits)

lemma aggregation_none_shape:
  assumes "shape x = [B, T, D]" and "shape coeff = [D, nat k]" and "0 < k"
  shows "\<exists>r. polynomial_aggregation x coeff k None = Inr r \<and> shape r = [B, T, D]"
proof -
  from expansion_shape[OF assms] obtain h where
    h: "expansion x coeff k = Inr h" "shape h = [B, T, D]" by blast
  from agg_none[OF h assms(1)] show ?thesis by blast
qed

lemma state_forward_first:
  assumes "initialised self" and "0 < order self"
    and "shape (context_of (xq, xc)) = [B, n, dim self]"
  shows "\<exists>out st. state_forward self xq xc None = Inr (out, st) \<and>
           shape out = [B, n, dim self] \<and>
           shape (state_h st) = [B, n, order_expand self * dim self] \<and>
           state_n st = int n"
proof -
  let ?c = "context_of (xq, xc)"
  let ?E = "order_expand self * dim self"
  have c: "(case xc of None \<Rightarrow> xq | Some c \<Rightarrow> c) = ?c" by (simp add: context_of_def split: option.splits)
  from assms(1) have l1: "linear_shapes (po_proj self) (dim self) ?E"
    and l2: "linear_shapes (ag_proj self) ?E (dim self)"
    and co: "shape (po_coeff self) = [?E, nat (order self)]"
    by (simp_all add: initialised_def mult.commute)
  from linear_apply_shape[OF l1 assms(3)] obtain y where
    y: "linear_apply (po_proj self) ?c = Inr y" "shape y = [B, n, ?E]" by blast
  from aggregation_none_shape[OF y(2) co assms(2)] obtain hc where
    hc: "polynomial_aggregation y (po_coeff self) (order self) None = Inr hc" "shape hc = [B, n, ?E]"
    by blast
  from linear_apply_shape[OF l2 hc(2)] obtain out where
    out: "linear_apply (ag_proj self) hc = Inr out" "shape out = [B, n, dim self]" by blast
  show ?thesis
    using y hc out by (simp add: state_forward_def c Let_def rbind_def)
qed

lemma state_forward_count:
  assumes "initialised self" and "state_forward self xq xc st = Inr (out, st')"
    and "length (shape (context_of (xq, xc))) = 3"
  shows "state_n st' = count st + int (shape (context_of (xq, xc)) ! 1)"
proof -
  let ?c = "context_of (xq, xc)"
  let ?E = "order_expand self * dim self"
  have c: "(case xc of None \<Rightarrow> xq | Some c \<Rightarrow> c) = ?c"
    by (simp add: context_of_def split: option.splits)
  from assms(3) obtain B n D where s: "shape ?c = [B, n, D]"
    by (auto simp: length_Suc_conv numeral_3_eq_3)
  from assms(1) have l1: "linear_shapes (po_proj self) (dim self) ?E"
    by (simp add: initialised_def mult.commute)
  from assms(2) obtain y where y: "linear_apply (po_proj self) ?c = Inr y"
    unfolding state_forward_def c Let_def rbind_def by (cases "linear_apply (po_proj self) ?c") auto
  from linear_apply_success[OF l1 y s] have sy: "shape y = [B, n, ?E]" .
  from assms(2) obtain hc where
    hc: "polynomial_aggregation y (po_coeff self) (order self) None = Inr hc"
    unfolding state_forward_def c Let_def rbind_def y
    by (cases "polynomial_aggregation y (po_coeff self) (order self) None") auto
  from aggregation_success_shape[OF hc] sy have shc: "shape hc = [B, n, ?E]" by simp
  define tail where "tail = (\<lambda>p :: tensor \<times> int.
      rbind (linear_apply (ag_proj self) (fst p)) (\<lambda>out.
        Inr (out, \<lparr>state_h = fst p, state_n = snd p + int n\<rparr>)))"
  have tail: "tail p = Inr (out, st') \<Longrightarrow> state_n st' = snd p + int n" for p
    unfolding tail_def rbind_def by (cases "linear_apply (ag_proj self) (fst p)") auto
  show ?thesis
  proof (cases st)
    case None
    with assms(2) have "tail (hc, 0) = Inr (out, st')"
      unfolding state_forward_def c Let_def tail_def
      by (simp add: y hc shc rbind_Inr)
    from tail[OF this] show ?thesis by (simp add: None count_def s)
  next
    case (Some s0)
    let ?m = "add (scalar_mul (real_of_int (state_n s0)) (state_h s0))
                  (scalar_mul (real_of_int (int n)) hc)"
    from assms(2) have *: "rbind (rbind ?m (\<lambda>sm.
          Inr (scalar_div sm (real_of_int (state_n s0 + int n)), state_n s0))) tail = Inr (out, st')"
      unfolding state_forward_def c Let_def tail_def
      by (simp add: y hc shc rbind_Inr Some case_prod_unfold)
    then obtain sm where sm: "?m = Inr sm"
      unfolding rbind_def by (cases ?m) auto
    from * have "tail (scalar_div sm (real_of_int (state_n s0 + int n)), state_n s0) = Inr (out, st')"
      unfolding sm rbind_Inr .
    from tail[OF this] show ?thesis by (simp add: Some count_def s)
  qed
qed

lemma thread_state_count:
  assumes "initialised self"
  shows "thread_state self st chunks = Inr st' \<Longrightarrow>
         list_all (\<lambda>c. length (shape (context_of c)) = 3) chunks \<Longrightarrow>
         count st' = count st + int (sum_list (map (\<lambda>c. shape (context_of c) ! 1) chunks))"
proof (induction chunks arbitrary: st)
  case Nil
  then show ?case by simp
next
  case (Cons c rest)
  obtain xq xc where c: "c = (xq, xc)" by (cases c)
  from Cons.prems(1) obtain out s1 where
    s1: "state_forward self xq xc st = Inr (out, s1)" "thread_state self (Some s1) rest = Inr st'"
    by (auto simp: c rbind_def split: sum.splits)
  from Cons.prems(2) have r3: "length (shape (context_of (xq, xc))) = 3"
    and rest: "list_all (\<lambda>c. length (shape (context_of c)) = 3) rest"
    by (simp_all add: c)
  from state_forward_count[OF assms s1(1) r3]
  have "count (Some s1) = count st + int (shape (context_of (xq, xc)) ! 1)"
    by (simp add: count_def)
  with Cons.IH[OF s1(2) rest] show ?case by (simp add: c)
qed

lemma cat_elem_pows:
  assumes "last (shape h) = 1"
  shows "j < n - i \<Longrightarrow> cat_elem (map (\<lambda>i. pow_t h i) [i..<n]) p j = elem h (p @ [0]) ^ (i + j)"
proof (induction j arbitrary: i)
  case 0
  then have "[i..<n] = i # [Suc i..<n]" by (simp add: upt_conv_Cons)
  then show ?case using assms by (simp add: pow_t_def pointwise_def)
next
  case (Suc j)
  then have "[i..<n] = i # [Suc i..<n]" by (simp add: upt_conv_Cons)
  moreover from Suc.prems have "j < n - Suc i" by simp
  ultimately show ?case using assms Suc.IH[of "Suc i"]
    by (simp add: pow_t_def pointwise_def)
qed

lemma bindex4:
  "b < B \<Longrightarrow> t < T \<Longrightarrow> d < D \<Longrightarrow> j < n \<Longrightarrow> bindex [B, T, D, n] [b, t, d, j] = [b, t, d, j]"
  by (rule bindex_in_range) simp

lemma bindex4_2:
  "d < D \<Longrightarrow> j < n \<Longrightarrow> bindex [D, n] [b, t, d, j] = [d, j]"
  by (auto simp: bindex_def)

lemma contract_value:
  assumes "shape h = [B, T, D, n]" "shape coeff = [D, n]"
  shows "\<exists>r. rbind (mul h coeff) sum_last = Inr r \<and> shape r = [B, T, D] \<and>
    (\<forall>b<B. \<forall>t<T. \<forall>d<D. elem r [b, t, d] = (\<Sum>j<n. elem h [b, t, d, j] * elem coeff [d, j]))"
  using assms
  by (simp add: mul_def binop_def broadcast_4_2 rbind_def sum_last_def bindex4 bindex4_2)

lemma generic_expansion_value:
  assumes "shape x = [B, T, D]" "shape coeff = [D, nat k]" "0 < k"
  shows "\<exists>r. generic_expansion x coeff k = Inr r \<and> shape r = [B, T, D] \<and>
    (\<forall>b<B. \<forall>t<T. \<forall>d<D. elem r [b, t, d] =
       (\<Sum>j<nat k. gelu_scalar (elem x [b, t, d]) ^ j * elem coeff [d, j]))"
proof -
  let ?h = "unsqueeze_last (gelu x)"
  let ?ts = "map (\<lambda>i. pow_t ?h i) [0..<nat k]"
  have sh: "shape ?h = [B, T, D] @ [1]" using assms by (simp add: unsq_gelu_shape)
  then have l1: "last (shape ?h) = 1" by simp
  from assms(3) have ne: "?ts \<noteq> []" by simp
  obtain c where c: "cat_last ?ts = Inr c" "shape c = [B, T, D, nat k]"
    using cat_pows_shape[OF sh, of "nat k"] assms(3) by auto
  have ce: "elem c idx = cat_elem ?ts (butlast idx) (last idx)" for idx
    using c(1) ne unfolding cat_last_def by (auto split: list.splits if_splits)
  have cv: "elem c [b, t, d, j] = gelu_scalar (elem x [b, t, d]) ^ j" if "j < nat k" for b t d j
    using cat_elem_pows[OF l1, of j "nat k" 0 "[b, t, d]"] that
    by (simp add: ce unsqueeze_last_def gelu_def pointwise_def)
  from contract_value[OF c(2) assms(2)] obtain r where
    r: "rbind (mul c coeff) sum_last = Inr r" "shape r = [B, T, D]"
       "\<forall>b<B. \<forall>t<T. \<forall>d<D. elem r [b, t, d] = (\<Sum>j<nat k. elem c [b, t, d, j] * elem coeff [d, j])"
    by blast
  have "generic_expansion x coeff k = Inr r"
    using c r by (simp add: generic_expansion_def Let_def rbind_Inr)
  moreover have "elem r [b, t, d] = (\<Sum>j<nat k. gelu_scalar (elem x [b, t, d]) ^ j * elem coeff [d, j])"
    if "b < B" "t < T" "d < D" for b t d
    using r(3) that by (simp add: cv)
  ultimately show ?thesis using r(2) by blast
qed

lemma full_mask_mixer_value:
  assumes "shape h = [B, N, D]" "shape m = [B, M, N]"
  shows "\<exists>r. full_mask_mixer h m = Inr r \<and> shape r = [B, M, D] \<and>
           (\<forall>b<B. \<forall>q<M. \<forall>d<D. elem r [b, q, d] =
              (\<Sum>j<N. elem h [b, j, d] * elem m [b, q, j]) / (1 / 10 ^ 7 + (\<Sum>j<N. elem m [b, q, j])))"
proof -
  have bm: "broadcast_shapes [B, M, D] [B, M, Suc 0] = Some [B, M, D]"
    by (simp add: broadcast_shapes_def pad_left_def bdim_def)
  show ?thesis
    using assms
    by (simp add: full_mask_mixer_def einsum_bnd_bmn_bmd_def rbind_def bdim_def sum_keep_def
        scalar_add_def pointwise_def divide_t_def binop_def bm bindex3 bindex3_last)
qed

lemma agg_mask3_mismatch:
  assumes "expansion x coeff k = Inr h" "shape h = [B, T, D]" "shape x = [B, T, D]"
    "shape m = [B, M, T]" "M \<noteq> T" "M \<noteq> 1"
  shows "polynomial_aggregation x coeff k (Some m) = Inl RuntimeError"
proof -
  from full_mask_mixer_value[OF assms(2,4)] obtain r where
    r: "full_mask_mixer h m = Inr r" "shape r = [B, M, D]" by blast
  from assms(5,6) have "\<not> expandable [B, M, D] [B, T, D]" by (simp add: expandable_def)
  then show ?thesis using assms(1,3,4) r
    by (simp add: polynomial_aggregation_def rbind_Inr expand_def)
qed

lemma agg_mask3_square:
  assumes "expansion x coeff k = Inr h" "shape h = [B, T, D]" "shape x = [B, T, D]"
    "shape m = [B, T, T]"
  shows "\<exists>r. polynomial_aggregation x coeff k (Some m) = Inr r \<and> shape r = [B, T, D] \<and>
           (\<forall>b<B. \<forall>q<T. \<forall>d<D. elem r [b, q, d] =
              (\<Sum>j<T. elem h [b, j, d] * elem m [b, q, j]) / (1 / 10 ^ 7 + (\<Sum>j<T. elem m [b, q, j])))"
proof -
  from full_mask_mixer_value[OF assms(2,4)] obtain r where
    r: "full_mask_mixer h m = Inr r" "shape r = [B, T, D]"
       "\<forall>b<B. \<forall>q<T. \<forall>d<D. elem r [b, q, d] =
              (\<Sum>j<T. elem h [b, j, d] * elem m [b, q, j]) / (1 / 10 ^ 7 + (\<Sum>j<T. elem m [b, q, j]))"
    by blast
  have "expandable [B, T, D] [B, T, D]" by (simp add: expandable_def)
  then show ?thesis using assms(1,3,4) r
    by (simp add: polynomial_aggregation_def rbind_Inr expand_def bindex3)
qed

lemma broadcast_mid:
  "broadcast_shapes [B, m, E] [B, n, E] = (case bdim m n of None \<Rightarrow> None | Some l \<Rightarrow> Some [B, l, E])"
  by (simp add: broadcast_shapes_def pad_left_def bdim_def)

lemma state_forward_next:
  assumes "initialised self" and "0 < order self"
    and "shape (context_of (xq, xc)) = [B, n, dim self]"
    and "shape (state_h s) = [B, m, order_expand self * dim self]"
  shows "bdim m n = None \<Longrightarrow> state_forward self xq xc (Some s) = Inl RuntimeError"
    and "bdim m n = Some l \<Longrightarrow>
         \<exists>out st. state_forward self xq xc (Some s) = Inr (out, st) \<and>
           shape out = [B, l, dim self] \<and>
           shape (state_h st) = [B, l, order_expand self * dim self] \<and>
           state_n st = state_n s + int n"
proof -
  let ?c = "context_of (xq, xc)"
  let ?E = "order_expand self * dim self"
  have c: "(case xc of None \<Rightarrow> xq | Some c \<Rightarrow> c) = ?c"
    by (simp add: context_of_def split: option.splits)
  from assms(1) have l1: "linear_shapes (po_proj self) (dim self) ?E"
    and l2: "linear_shapes (ag_proj self) ?E (dim self)"
    and co: "shape (po_coeff self) = [?E, nat (order self)]"
    by (simp_all add: initialised_def mult.commute)
  from linear_apply_shape[OF l1 assms(3)] obtain y where
    y: "linear_apply (po_proj self) ?c = Inr y" "shape y = [B, n, ?E]" by blast
  from aggregation_none_shape[OF y(2) co assms(2)] obtain hc where
    hc: "polynomial_aggregation y (po_coeff self) (order self) None = Inr hc" "shape hc = [B, n, ?E]"
    by blast
  let ?m = "add (scalar_mul (real_of_int (state_n s)) (state_h s))
                (scalar_mul (real_of_int (int n)) hc)"
  have unf: "state_forward self xq xc (Some s) =
      rbind (rbind ?m (\<lambda>sm. Inr (scalar_div sm (real_of_int (state_n s + int n)), state_n s)))
        (\<lambda>(h, n_past). rbind (linear_apply (ag_proj self) h) (\<lambda>out.
            Inr (out, \<lparr>state_h = h, state_n = n_past + int n\<rparr>)))"
    unfolding state_forward_def c Let_def by (simp add: y hc rbind_Inr)
  {
    assume "bdim m n = None"
    then have "?m = Inl RuntimeError"
      using assms(4) hc(2)
      by (simp add: add_def binop_def scalar_mul_def pointwise_def broadcast_mid)
    then show "state_forward self xq xc (Some s) = Inl RuntimeError"
      unfolding unf by (simp add: rbind_Inl)
  }
  {
    assume "bdim m n = Some l"
    then obtain sm where sm: "?m = Inr sm" "shape sm = [B, l, ?E]"
      using assms(4) hc(2)
      by (simp add: add_def binop_def scalar_mul_def pointwise_def broadcast_mid)
    let ?h = "scalar_div sm (real_of_int (state_n s + int n))"
    have sh: "shape ?h = [B, l, ?E]" using sm(2) by (simp add: scalar_div_def pointwise_def)
    from linear_apply_shape[OF l2 sh] obtain out where
      out: "linear_apply (ag_proj self) ?h = Inr out" "shape out = [B, l, dim self]" by blast
    have "state_forward self xq xc (Some s) =
        Inr (out, \<lparr>state_h = ?h, state_n = state_n s + int n\<rparr>)"
      unfolding unf sm(1) rbind_Inr prod.case out(1) by (rule refl)
    with out(2) sh
    show "\<exists>out st. state_forward self xq xc (Some s) = Inr (out, st) \<and>
           shape out = [B, l, dim self] \<and>
           shape (state_h st) = [B, l, order_expand self * dim self] \<and>
           state_n st = state_n s + int n"
      by simp
  }
qed

lemma module_1_2_1_initialised: "initialised module_1_2_1 \<and> 0 < order module_1_2_1"
  by (simp add: initialised_def module_1_2_1_def linear_shapes_def of_rows_def)

section \<open>Values\<close>

lemma mul_unsq_value:
  assumes "shape a = [B, T, D, 1]" "shape c = [B, T, D, 1]"
  shows "\<exists>r. mul a c = Inr r \<and> shape r = [B, T, D, 1] \<and>
     (\<forall>b<B. \<forall>t<T. \<forall>d<D. elem r [b, t, d, 0] = elem a [b, t, d, 0] * elem c [b, t, d, 0])"
  using assms by (simp add: mul_def binop_def broadcast_same bindex4)

lemma po2_value:
  assumes "shape x = [B, T, D]" "shape coeff = [D, 2]"
  shows "\<exists>r. po2 x coeff = Inr r \<and> shape r = [B, T, D] \<and>
    (\<forall>b<B. \<forall>t<T. \<forall>d<D. elem r [b, t, d] =
       (\<Sum>j<2. gelu_scalar (elem x [b, t, d]) ^ Suc j * elem coeff [d, j]))"
proof -
  let ?h = "unsqueeze_last (gelu x)"
  have sh: "shape ?h = [B, T, D, 1]" using assms by (simp add: unsq_gelu_shape)
  have hv: "elem ?h [b, t, d, 0] = gelu_scalar (elem x [b, t, d])" for b t d
    by (simp add: unsqueeze_last_def gelu_def pointwise_def)
  from mul_unsq_value[OF sh sh] obtain h2 where h2: "mul ?h ?h = Inr h2" "shape h2 = [B, T, D, 1]"
    "\<forall>b<B. \<forall>t<T. \<forall>d<D. elem h2 [b, t, d, 0] = elem ?h [b, t, d, 0] * elem ?h [b, t, d, 0]"
    by blast
  obtain c where c: "cat_last [?h, h2] = Inr c" "shape c = [B, T, D, 2]"
    "\<And>idx. elem c idx = cat_elem [?h, h2] (butlast idx) (last idx)"
    using sh h2 by (simp add: cat_last_def)
  from contract_value[OF c(2) assms(2)] obtain r where
    r: "rbind (mul c coeff) sum_last = Inr r" "shape r = [B, T, D]"
       "\<forall>b<B. \<forall>t<T. \<forall>d<D. elem r [b, t, d] = (\<Sum>j<2. elem c [b, t, d, j] * elem coeff [d, j])"
    by blast
  have "po2 x coeff = Inr r" using h2 c r by (simp add: po2_def Let_def rbind_Inr)
  moreover have "elem r [b, t, d] = (\<Sum>j<2. gelu_scalar (elem x [b, t, d]) ^ Suc j * elem coeff [d, j])"
    if "b < B" "t < T" "d < D" for b t d
    using r(3) h2(3) that sh h2(2)
    by (simp add: c(3) hv lessThan_nat_numeral lessThan_Suc power2_eq_square)
  ultimately show ?thesis using r(2) by blast
qed

lemma po3_value:
  assumes "shape x = [B, T, D]" "shape coeff = [D, 3]"
  shows "\<exists>r. po3 x coeff = Inr r \<and> shape r = [B, T, D] \<and>
    (\<forall>b<B. \<forall>t<T. \<forall>d<D. elem r [b, t, d] =
       (\<Sum>j<3. gelu_scalar (elem x [b, t, d]) ^ Suc j * elem coeff [d, j]))"
proof -
  let ?h = "unsqueeze_last (gelu x)"
  have sh: "shape ?h = [B, T, D, 1]" using assms by (simp add: unsq_gelu_shape)
  have hv: "elem ?h [b, t, d, 0] = gelu_scalar (elem x [b, t, d])" for b t d
    by (simp add: unsqueeze_last_def gelu_def pointwise_def)
  from mul_unsq_value[OF sh sh] obtain h2 where h2: "mul ?h ?h = Inr h2" "shape h2 = [B, T, D, 1]"
    "\<forall>b<B. \<forall>t<T. \<forall>d<D. elem h2 [b, t, d, 0] = elem ?h [b, t, d, 0] * elem ?h [b, t, d, 0]"
    by blast
  from mul_unsq_value[OF h2(2) sh] obtain h3 where h3: "mul h2 ?h = Inr h3" "shape h3 = [B, T, D, 1]"
    "\<forall>b<B. \<forall>t<T. \<forall>d<D. elem h3 [b, t, d, 0] = elem h2 [b, t, d, 0] * elem ?h [b, t, d, 0]"
    by blast
  obtain c where c: "cat_last [?h, h2, h3] = Inr c" "shape c = [B, T, D, 3]"
    "\<And>idx. elem c idx = cat_elem [?h, h2, h3] (butlast idx) (last idx)"
    using sh h2 h3 by (simp add: cat_last_def)
  from contract_value[OF c(2) assms(2)] obtain r where
    r: "rbind (mul c coeff) sum_last = Inr r" "shape r = [B, T, D]"
       "\<forall>b<B. \<forall>t<T. \<forall>d<D. elem r [b, t, d] = (\<Sum>j<3. elem c [b, t, d, j] * elem coeff [d, j])"
    by blast
  have "po3 x coeff = Inr r" using h2 h3 c r by (simp add: po3_def Let_def rbind_Inr)
  moreover have "elem r [b, t, d] = (\<Sum>j<3. gelu_scalar (elem x [b, t, d]) ^ Suc j * elem coeff [d, j])"
    if "b < B" "t < T" "d < D" for b t d
    using r(3) h2(3) h3(3) that sh h2(2) h3(2)
    by (simp add: c(3) hv lessThan_nat_numeral lessThan_Suc power2_eq_square)
  ultimately show ?thesis using r(2) by blast
qed

lemma po4_value:
  assumes "shape x = [B, T, D]" "shape coeff = [D, 4]"
  shows "\<exists>r. po4 x coeff = Inr r \<and> shape r = [B, T, D] \<and>
    (\<forall>b<B. \<forall>t<T. \<forall>d<D. elem r [b, t, d] =
       (\<Sum>j<4. gelu_scalar (elem x [b, t, d]) ^ Suc j * elem coeff [d, j]))"
proof -
  let ?h = "unsqueeze_last (gelu x)"
  have sh: "shape ?h = [B, T, D, 1]" using assms by (simp add: unsq_gelu_shape)
  have hv: "elem ?h [b, t, d, 0] = gelu_scalar (elem x [b, t, d])" for b t d
    by (simp add: unsqueeze_last_def gelu_def pointwise_def)
  from mul_unsq_value[OF sh sh] obtain h2 where h2: "mul ?h ?h = Inr h2" "shape h2 = [B, T, D, 1]"
    "\<forall>b<B. \<forall>t<T. \<forall>d<D. elem h2 [b, t, d, 0] = elem ?h [b, t, d, 0] * elem ?h [b, t, d, 0]"
    by blast
  from mul_unsq_value[OF h2(2) sh] obtain h3 where h3: "mul h2 ?h = Inr h3" "shape h3 = [B, T, D, 1]"
    "\<forall>b<B. \<forall>t<T. \<forall>d<D. elem h3 [b, t, d, 0] = elem h2 [b, t, d, 0] * elem ?h [b, t, d, 0]"
    by blast
  from mul_unsq_value[OF h3(2) sh] obtain h4 where h4: "mul h3 ?h = Inr h4" "shape h4 = [B, T, D, 1]"
    "\<forall>b<B. \<forall>t<T. \<forall>d<D. elem h4 [b, t, d, 0] = elem h3 [b, t, d, 0] * elem ?h [b, t, d, 0]"
    by blast
  obtain c where c: "cat_last [?h, h2, h3, h4] = Inr c" "shape c = [B, T, D, 4]"
    "\<And>idx. elem c idx = cat_elem [?h, h2, h3, h4] (butlast idx) (last idx)"
    using sh h2 h3 h4 by (simp add: cat_last_def)
  from contract_value[OF c(2) assms(2)] obtain r where
    r: "rbind (mul c coeff) sum_last = Inr r" "shape r = [B, T, D]"
       "\<forall>b<B. \<forall>t<T. \<forall>d<D. elem r [b, t, d] = (\<Sum>j<4. elem c [b, t, d, j] * elem coeff [d, j])"
    by blast
  have "po4 x coeff = Inr r" using h2 h3 h4 c r by (simp add: po4_def Let_def rbind_Inr)
  moreover have "elem r [b, t, d] = (\<Sum>j<4. gelu_scalar (elem x [b, t, d]) ^ Suc j * elem coeff [d, j])"
    if "b < B" "t < T" "d < D" for b t d
    using r(3) h2(3) h3(3) h4(3) that sh h2(2) h3(2) h4(2)
    by (simp add: c(3) hv lessThan_nat_numeral lessThan_Suc power2_eq_square power3_eq_cube power4_eq_xxxx)
  ultimately show ?thesis using r(2) by blast
qed

lemma expansion_value:
  assumes "shape x = [B, T, D]" "shape coeff = [D, nat k]" "0 < k"
  shows "\<exists>r. expansion x coeff k = Inr r \<and> shape r = [B, T, D] \<and>
    (\<forall>b<B. \<forall>t<T. \<forall>d<D. elem r [b, t, d] = poly_term k coeff d (gelu_scalar (elem x [b, t, d])))"
proof -
  consider "k = 2" | "k = 3" | "k = 4" | "k \<noteq> 2" "k \<noteq> 3" "k \<noteq> 4" by blast
  then show ?thesis
  proof cases
    case 1
    with po2_value[OF assms(1), of coeff] assms(2) show ?thesis
      by (simp add: expansion_def poly_term_def)
  next
    case 2
    with po3_value[OF assms(1), of coeff] assms(2) show ?thesis
      by (simp add: expansion_def poly_term_def)
  next
    case 3
    with po4_value[OF assms(1), of coeff] assms(2) show ?thesis
      by (simp add: expansion_def poly_term_def)
  next
    case 4
    with generic_expansion_value[OF assms] show ?thesis
      by (simp add: expansion_def poly_term_def)
  qed
qed

lemma bindex_1_3: "o' < out \<Longrightarrow> bindex [out] [b, t, o'] = [o']"
  by (auto simp: bindex_def)

lemma linear_apply_value:
  assumes "linear_shapes l inn out" and "shape x = [B, T, inn]"
  shows "\<exists>y. linear_apply l x = Inr y \<and> shape y = [B, T, out] \<and>
     (\<forall>b<B. \<forall>t<T. \<forall>c<out. elem y [b, t, c] =
        (\<Sum>i<inn. elem x [b, t, i] * elem (weight l) [c, i])
          + (case bias l of None \<Rightarrow> 0 | Some v \<Rightarrow> elem v [c]))"
  using assms
  by (auto simp: linear_shapes_def linear_apply_def matmul_transposed_def rbind_def add_def
      binop_def broadcast_3_1 bindex3 bindex_1_3 split: option.splits)

lemma sum_split_seq:
  fixes f :: "nat \<Rightarrow> real"
  shows "(\<Sum>j<n1 + n2. f j) = (\<Sum>j<n1. f j) + (\<Sum>j<n2. f (n1 + j))"
  by (induction n2) (simp_all add: add.assoc)

section \<open>Streaming against one pass\<close>

lemma aggregate_value:
  assumes "initialised self" and "0 < order self" and "shape x = [B, n, dim self]"
  shows "\<exists>a. aggregate_of self x = Inr a \<and> shape a = [B, n, order_expand self * dim self] \<and>
     (\<forall>b<B. \<forall>t<n. \<forall>d<order_expand self * dim self.
        elem a [b, t, d] = (\<Sum>j<n. feature self x b j d) / real n)"
proof -
  let ?E = "order_expand self * dim self"
  from assms(1) have l1: "linear_shapes (po_proj self) (dim self) ?E"
    and co: "shape (po_coeff self) = [?E, nat (order self)]"
    by (simp_all add: initialised_def mult.commute)
  from linear_apply_value[OF l1 assms(3)] obtain y where
    y: "linear_apply (po_proj self) x = Inr y" "shape y = [B, n, ?E]"
       "\<forall>b<B. \<forall>t<n. \<forall>c<?E. elem y [b, t, c] =
        (\<Sum>i<dim self. elem x [b, t, i] * elem (weight (po_proj self)) [c, i])
          + (case bias (po_proj self) of None \<Rightarrow> 0 | Some v \<Rightarrow> elem v [c])"
    by blast
  from expansion_value[OF y(2) co assms(2)] obtain h where
    h: "expansion y (po_coeff self) (order self) = Inr h" "shape h = [B, n, ?E]"
       "\<forall>b<B. \<forall>t<n. \<forall>d<?E. elem h [b, t, d] =
          poly_term (order self) (po_coeff self) d (gelu_scalar (elem y [b, t, d]))"
    by blast
  from agg_none[OF h(1,2) y(2)] obtain a where
    a: "polynomial_aggregation y (po_coeff self) (order self) None = Inr a" "shape a = [B, n, ?E]"
       "\<forall>b<B. \<forall>t<n. \<forall>d<?E. elem a [b, t, d] = (\<Sum>j<n. elem h [b, j, d]) / real n"
    by blast
  have hf: "elem h [b, j, d] = feature self x b j d" if "b < B" "j < n" "d < ?E" for b j d
    using h(3) y(3) that by (simp add: feature_def)
  have "elem a [b, t, d] = (\<Sum>j<n. feature self x b j d) / real n"
    if "b < B" "t < n" "d < ?E" for b t d
    using a(3) that by (simp add: hf)
  moreover have "aggregate_of self x = Inr a"
    using y(1) a(1) by (simp add: aggregate_of_def rbind_Inr)
  ultimately show ?thesis using a(2) by blast
qed

lemma bindex_mid_choice:
  "b < B \<Longrightarrow> d < E \<Longrightarrow> bindex [B, m, E] [b, t, d] = [b, if m = 1 then 0 else t, d]"
  by (auto simp: bindex_def)

lemma state_forward_first_value:
  assumes "aggregate_of self (context_of (xq, xc)) = Inr a" and "shape a = [B, n, E]"
    and "linear_shapes (ag_proj self) E D"
  shows "\<exists>out. state_forward self xq xc None = Inr (out, \<lparr>state_h = a, state_n = int n\<rparr>)"
proof -
  let ?c = "context_of (xq, xc)"
  have c: "(case xc of None \<Rightarrow> xq | Some c \<Rightarrow> c) = ?c"
    by (simp add: context_of_def split: option.splits)
  from assms(1) obtain y where y: "linear_apply (po_proj self) ?c = Inr y"
    "polynomial_aggregation y (po_coeff self) (order self) None = Inr a"
    unfolding aggregate_of_def rbind_def by (cases "linear_apply (po_proj self) ?c") auto
  from linear_apply_shape[OF assms(3,2)] obtain out where
    out: "linear_apply (ag_proj self) a = Inr out" by blast
  show ?thesis
    unfolding state_forward_def c Let_def using y out assms(2) by (simp add: rbind_Inr)
qed

lemma state_forward_next_value:
  assumes "aggregate_of self (context_of (xq, xc)) = Inr a" and "shape a = [B, n, E]"
    and "linear_shapes (ag_proj self) E D"
    and "shape (state_h s) = [B, m, E]" and "bdim m n = Some l"
  shows "\<exists>out st. state_forward self xq xc (Some s) = Inr (out, st) \<and>
     shape (state_h st) = [B, l, E] \<and> state_n st = state_n s + int n \<and>
     (\<forall>b<B. \<forall>t<l. \<forall>d<E. elem (state_h st) [b, t, d] =
        (real_of_int (state_n s) * elem (state_h s) [b, if m = 1 then 0 else t, d]
          + real n * elem a [b, if n = 1 then 0 else t, d]) / (real_of_int (state_n s) + real n))"
proof -
  let ?c = "context_of (xq, xc)"
  have c: "(case xc of None \<Rightarrow> xq | Some c \<Rightarrow> c) = ?c"
    by (simp add: context_of_def split: option.splits)
  from assms(1) obtain y where y: "linear_apply (po_proj self) ?c = Inr y"
    "polynomial_aggregation y (po_coeff self) (order self) None = Inr a"
    unfolding aggregate_of_def rbind_def by (cases "linear_apply (po_proj self) ?c") auto
  let ?m = "add (scalar_mul (real_of_int (state_n s)) (state_h s))
                (scalar_mul (real_of_int (int n)) a)"
  have unf: "state_forward self xq xc (Some s) =
      rbind (rbind ?m (\<lambda>sm. Inr (scalar_div sm (real_of_int (state_n s + int n)), state_n s)))
        (\<lambda>(h, n_past). rbind (linear_apply (ag_proj self) h) (\<lambda>out.
            Inr (out, \<lparr>state_h = h, state_n = n_past + int n\<rparr>)))"
    unfolding state_forward_def c Let_def using assms(2) by (simp add: y rbind_Inr)
  obtain sm where sm: "?m = Inr sm" "shape sm = [B, l, E]"
    "\<forall>b<B. \<forall>t<l. \<forall>d<E. elem sm [b, t, d] =
        real_of_int (state_n s) * elem (state_h s) [b, if m = 1 then 0 else t, d]
          + real n * elem a [b, if n = 1 then 0 else t, d]"
    using assms(2,4,5)
    by (simp add: add_def binop_def scalar_mul_def pointwise_def broadcast_mid bindex_mid_choice)
  let ?h = "scalar_div sm (real_of_int (state_n s + int n))"
  have sh: "shape ?h = [B, l, E]" using sm(2) by (simp add: scalar_div_def pointwise_def)
  have hv: "elem ?h idx = elem sm idx / (real_of_int (state_n s) + real n)" for idx
    by (simp add: scalar_div_def pointwise_def)
  from linear_apply_shape[OF assms(3) sh] obtain out where
    out: "linear_apply (ag_proj self) ?h = Inr out" by blast
  have "state_forward self xq xc (Some s) =
      Inr (out, \<lparr>state_h = ?h, state_n = state_n s + int n\<rparr>)"
    unfolding unf sm(1) rbind_Inr prod.case out by (rule refl)
  moreover have "elem ?h [b, t, d] =
        (real_of_int (state_n s) * elem (state_h s) [b, if m = 1 then 0 else t, d]
          + real n * elem a [b, if n = 1 then 0 else t, d]) / (real_of_int (state_n s) + real n)"
    if "b < B" "t < l" "d < E" for b t d
    unfolding hv using sm(3) that by (simp only:)
  ultimately show ?thesis using sh by (simp del: One_nat_def)
qed

lemma feature_cat_seq:
  assumes "shape x1 = [B, n1, D]"
  shows "feature self (cat_seq x1 x2) b j d =
           (if j < n1 then feature self x1 b j d else feature self x2 b (j - n1) d)"
  using assms by (simp add: feature_def cat_seq_def)

lemma bdim_index:
  assumes "bdim m n = Some l" and "t < l"
  shows "(if m = 1 then 0 else t) < m" and "(if n = 1 then 0 else t) < n"
  using assms by (auto simp: bdim_def split: if_splits)

lemma weighted_mean_merge:
  fixes s1 s2 :: real
  assumes "0 < n1" and "0 < n2"
  shows "(real n1 * (s1 / real n1) + real n2 * (s2 / real n2)) / (real n1 + real n2)
           = (s1 + s2) / real (n1 + n2)"
  using assms by simp

lemma streaming_compatible_chunks:
  assumes "initialised self" and "0 < order self"
    and "shape (context_of c1) = [B, n1, dim self]"
    and "shape (context_of c2) = [B, n2, dim self]"
    and "bdim n1 n2 = Some l" and "0 < n1" and "0 < n2"
  shows "\<exists>st a. thread_state self None [c1, c2] = Inr (Some st) \<and>
           aggregate_of self (cat_seq (context_of c1) (context_of c2)) = Inr a \<and>
           shape (state_h st) = [B, l, order_expand self * dim self] \<and>
           shape a = [B, n1 + n2, order_expand self * dim self] \<and>
           state_n st = int (n1 + n2) \<and>
           (\<forall>b<B. \<forall>t<l. \<forall>t'<n1 + n2. \<forall>d<order_expand self * dim self.
              elem (state_h st) [b, t, d] = elem a [b, t', d])"
proof -
  let ?E = "order_expand self * dim self"
  let ?x1 = "context_of c1" and ?x2 = "context_of c2"
  obtain xq1 xc1 where c1: "c1 = (xq1, xc1)" by (cases c1)
  obtain xq2 xc2 where c2: "c2 = (xq2, xc2)" by (cases c2)
  from assms(1) have l2: "linear_shapes (ag_proj self) ?E (dim self)"
    by (simp add: initialised_def)
  from aggregate_value[OF assms(1,2,3)] obtain a1 where
    a1: "aggregate_of self ?x1 = Inr a1" "shape a1 = [B, n1, ?E]"
        "\<forall>b<B. \<forall>t<n1. \<forall>d<?E. elem a1 [b, t, d] = (\<Sum>j<n1. feature self ?x1 b j d) / real n1"
    by blast
  from aggregate_value[OF assms(1,2,4)] obtain a2 where
    a2: "aggregate_of self ?x2 = Inr a2" "shape a2 = [B, n2, ?E]"
        "\<forall>b<B. \<forall>t<n2. \<forall>d<?E. elem a2 [b, t, d] = (\<Sum>j<n2. feature self ?x2 b j d) / real n2"
    by blast
  have sc: "shape (cat_seq ?x1 ?x2) = [B, n1 + n2, dim self]"
    using assms(3,4) by (simp add: cat_seq_def)
  from aggregate_value[OF assms(1,2) sc] obtain a where
    a: "aggregate_of self (cat_seq ?x1 ?x2) = Inr a" "shape a = [B, n1 + n2, ?E]"
       "\<forall>b<B. \<forall>t<n1 + n2. \<forall>d<?E. elem a [b, t, d] =
          (\<Sum>j<n1 + n2. feature self (cat_seq ?x1 ?x2) b j d) / real (n1 + n2)"
    by blast
  let ?s1 = "\<lparr>state_h = a1, state_n = int n1\<rparr>"
  from state_forward_first_value[OF a1(1)[unfolded c1] a1(2) l2] obtain o1 where
    f1: "state_forward self xq1 xc1 None = Inr (o1, ?s1)" by blast
  have s1h: "shape (state_h ?s1) = [B, n1, ?E]" using a1(2) by simp
  from state_forward_next_value[OF a2(1)[unfolded c2] a2(2) l2 s1h assms(5)] obtain o2 st where
    f2: "state_forward self xq2 xc2 (Some ?s1) = Inr (o2, st)"
        "shape (state_h st) = [B, l, ?E]" "state_n st = int n1 + int n2"
        "\<forall>b<B. \<forall>t<l. \<forall>d<?E. elem (state_h st) [b, t, d] =
           (real n1 * elem a1 [b, if n1 = 1 then 0 else t, d]
             + real n2 * elem a2 [b, if n2 = 1 then 0 else t, d]) / (real n1 + real n2)"
    by auto
  have run: "thread_state self None [c1, c2] = Inr (Some st)"
    using f1 f2(1) by (simp add: c1 c2 rbind_Inr)
  have eq: "elem (state_h st) [b, t, d] = elem a [b, t', d]"
    if "b < B" "t < l" "t' < n1 + n2" "d < ?E" for b t t' d
  proof -
    let ?S1 = "\<Sum>j<n1. feature self ?x1 b j d" and ?S2 = "\<Sum>j<n2. feature self ?x2 b j d"
    from bdim_index[OF assms(5) that(2)]
    have i1: "(if n1 = 1 then 0 else t) < n1" and i2: "(if n2 = 1 then 0 else t) < n2" .
    from a1(3) that(1,4) i1 have v1: "elem a1 [b, if n1 = 1 then 0 else t, d] = ?S1 / real n1"
      by blast
    from a2(3) that(1,4) i2 have v2: "elem a2 [b, if n2 = 1 then 0 else t, d] = ?S2 / real n2"
      by blast
    from f2(4) that have "elem (state_h st) [b, t, d] =
        (real n1 * (?S1 / real n1) + real n2 * (?S2 / real n2)) / (real n1 + real n2)"
      by (simp only: v1 v2)
    also have "\<dots> = (?S1 + ?S2) / real (n1 + n2)"
      by (rule weighted_mean_merge[OF assms(6,7)])
    also have "?S1 + ?S2 = (\<Sum>j<n1 + n2. feature self (cat_seq ?x1 ?x2) b j d)"
      by (simp add: sum_split_seq feature_cat_seq[OF assms(3)])
    also have "\<dots> / real (n1 + n2) = elem a [b, t', d]"
      using a(3) that by simp
    finally show ?thesis .
  qed
  from run a(1,2) f2(2,3) eq show ?thesis by (intro exI[of _ st] exI[of _ a]) simp
qed


section \<open>The claims\<close>


subsection \<open>C1: closed forms against the generic expansion\<close>


subsection \<open>C2: streaming two chunks\<close>

text \<open>
  C2 asks that streaming two chunks of lengths \<open>n1\<close> and \<open>n2\<close>, also with \<open>n1 \<noteq> n2\<close>, succeeds
  and ends with the aggregate of the concatenated sequence.  The aggregate kept in the state
  has the length of its chunk, so the weighted mean of the second call combines tensors of
  shapes \<open>(B, n1, D')\<close> and \<open>(B, n2, D')\<close>: the first call succeeds, and for \<open>n1 \<noteq> n2\<close>, both
  other than 1, the second call raises.
\<close>

theorem streaming_unequal_chunks_raises:
  assumes "initialised self" and "0 < order self"
    and "shape (context_of c1) = [B, n1, dim self]"
    and "shape (context_of c2) = [B, n2, dim self]"
    and "n1 \<noteq> n2" and "n1 \<noteq> 1" and "n2 \<noteq> 1"
  shows "(\<exists>out st. state_forward self (fst c1) (snd c1) None = Inr (out, st)) \<and>
         thread_state self None [c1, c2] = Inl RuntimeError"
proof -
  obtain xq1 xc1 where c1: "c1 = (xq1, xc1)" by (cases c1)
  obtain xq2 xc2 where c2: "c2 = (xq2, xc2)" by (cases c2)
  from state_forward_first[OF assms(1,2) assms(3)[unfolded c1]] obtain out st where
    st: "state_forward self xq1 xc1 None = Inr (out, st)"
        "shape (state_h st) = [B, n1, order_expand self * dim self]"
    by blast
  from assms(5-7) have "bdim n1 n2 = None" by (simp add: bdim_def)
  from state_forward_next(1)[OF assms(1,2) assms(4)[unfolded c2] st(2) this]
  have "state_forward self xq2 xc2 (Some st) = Inl RuntimeError" .
  with st(1) show ?thesis by (simp add: c1 c2 rbind_Inr rbind_Inl)
qed

theorem streaming_unequal_chunks_raises_witness:
  "thread_state module_1_2_1 None [(full [1, 2, 1] 0, None), (full [1, 3, 1] 0, None)]
     = Inl RuntimeError"
proof -
  have i: "initialised module_1_2_1" and o: "0 < order module_1_2_1"
    using module_1_2_1_initialised by simp_all
  have d: "dim module_1_2_1 = 1" by (simp add: module_1_2_1_def)
  have s1: "shape (context_of (full [1, 2, 1] 0, None)) = [1, 2, dim module_1_2_1]"
    by (simp add: context_of_def full_def d)
  have s2: "shape (context_of (full [1, 3, 1] 0, None)) = [1, 3, dim module_1_2_1]"
    by (simp add: context_of_def full_def d)
  from streaming_unequal_chunks_raises[OF i o s1 s2] show ?thesis by simp
qed

subsection \<open>C3: the powers of the generic expansion\<close>

text \<open>
  C3 asks that the generic path, taken for every order other than 2, 3 and 4, contracts the
  powers \<open>h\<^sup>1, \<dots>, h\<^sup>k\<close> with the coefficients.  The path contracts \<open>h\<^sup>0, \<dots>, h\<^sup>k\<^sup>-\<^sup>1\<close>:
  for an input of shape \<open>(B, T, D)\<close> and coefficients of shape \<open>(D, k)\<close> the expansion
  succeeds, keeps the shape, and its element at \<open>(b, t, d)\<close> is the sum over \<open>j < k\<close> of
  \<open>gelu(x[b,t,d])\<^sup>j \<cdot> coeff[d,j]\<close>.
\<close>

theorem generic_path_powers_start_at_zero:
  assumes "shape x = [B, T, D]" and "shape coeff = [D, nat k]" and "0 < k"
    and "k \<noteq> 2" and "k \<noteq> 3" and "k \<noteq> 4"
  shows "\<exists>r. expansion x coeff k = Inr r \<and> shape r = [B, T, D] \<and>
    (\<forall>b<B. \<forall>t<T. \<forall>d<D. elem r [b, t, d] =
       (\<Sum>j<nat k. gelu_scalar (elem x [b, t, d]) ^ j * elem coeff [d, j]))"
  using generic_expansion_value[OF assms(1-3)] assms(4-6) by (simp add: expansion_def)

theorem generic_path_powers_start_at_zero_witness:
  "res_shape (expansion (full [1, 1, 1] 0) (of_rows [[1, 0, 0, 0, 0]]) 5) = Inr [1, 1, 1] \<and>
   res_elem (expansion (full [1, 1, 1] 0) (of_rows [[1, 0, 0, 0, 0]]) 5) [0, 0, 0] = Inr 1"
proof -
  let ?x = "full [1, 1, 1] 0" and ?c = "of_rows [[1, 0, 0, 0, 0]]"
  have sx: "shape ?x = [1, 1, 1]" by (simp add: full_def)
  have sc: "shape ?c = [1, nat 5]" by (simp add: of_rows_def)
  from generic_path_powers_start_at_zero[OF sx sc] obtain r where
    r: "expansion ?x ?c 5 = Inr r" "shape r = [1, 1, 1]"
       "\<forall>b<1. \<forall>t<1. \<forall>d<1. elem r [b, t, d] =
          (\<Sum>j<nat 5. gelu_scalar (elem ?x [b, t, d]) ^ j * elem ?c [d, j])"
    by auto
  from r(3) have "elem r [0, 0, 0] = (\<Sum>j<nat 5. gelu_scalar (elem ?x [0, 0, 0]) ^ j * elem ?c [0, j])"
    by simp
  also have "\<dots> = 1"
    by (simp add: full_def of_rows_def gelu_scalar_0 lessThan_nat_numeral lessThan_Suc)
  finally show ?thesis using r(1,2) by (simp add: res_shape_def res_elem_def)
qed

subsection \<open>C4: a mask of rank 3\<close>

text \<open>
  C4 asks that a mask of shape \<open>(B, M, T)\<close> gives an output of shape \<open>(B, M, D)\<close>, also when
  the query length \<open>M\<close> differs from the sequence length \<open>T\<close>.  \<open>full_mask_mixer\<close> returns that
  tensor, but \<open>polynomial_aggregation_\<close> then expands it to the shape of its input
  \<open>(B, T, D)\<close>: for \<open>M\<close> other than \<open>T\<close> and 1 the expansion raises and no output is returned.
\<close>

theorem rectangular_mask_raises:
  assumes "shape x = [B, T, D]" and "shape coeff = [D, nat k]" and "0 < k"
    and "shape m = [B, M, T]" and "M \<noteq> T" and "M \<noteq> 1"
  shows "polynomial_aggregation x coeff k (Some m) = Inl RuntimeError"
proof -
  from expansion_shape[OF assms(1-3)] obtain h where
    h: "expansion x coeff k = Inr h" "shape h = [B, T, D]" by blast
  from agg_mask3_mismatch[OF h assms(1) assms(4-6)] show ?thesis .
qed

theorem rectangular_mask_raises_witness:
  "polynomial_aggregation (full [1, 2, 1] 0) (of_rows [[1, 1]]) 2 (Some (full [1, 3, 2] 1))
     = Inl RuntimeError"
proof -
  have sx: "shape (full [1, 2, 1] 0) = [1, 2, 1]" by (simp add: full_def)
  have sc: "shape (of_rows [[1, 1]]) = [1, nat 2]" by (simp add: of_rows_def)
  have sm: "shape (full [1, 3, 2] 1) = [1, 3, 2]" by (simp add: full_def)
  from rectangular_mask_raises[OF sx sc _ sm] show ?thesis by simp
qed

subsection \<open>C5: the shapes state_forward returns\<close>

text \<open>
  C5 asks that \<open>state_forward\<close> returns an output of shape \<open>(B, 1, D)\<close> and an aggregate of
  shape \<open>(B, 1, D')\<close> whatever the length of the chunk.  The aggregate is expanded to the
  shape of the projected chunk, and its second dimension is read back as the count: a call
  without prior state on a chunk of two positions returns the shapes \<open>(1, 2, 1)\<close>.
\<close>

theorem state_forward_keeps_chunk_length_counterexample:
  "call_shapes (state_forward module_1_2_1 (full [1, 2, 1] 0) None None)
     = Inr ([1, 2, 1], [1, 2, 1], 2)"
proof -
  have i: "initialised module_1_2_1" and o: "0 < order module_1_2_1"
    using module_1_2_1_initialised by simp_all
  have d: "dim module_1_2_1 = 1" "order_expand module_1_2_1 = 1" by (simp_all add: module_1_2_1_def)
  have s1: "shape (context_of (full [1, 2, 1] 0, None)) = [1, 2, dim module_1_2_1]"
    by (simp add: context_of_def full_def d)
  from state_forward_first[OF i o s1] show ?thesis
    by (auto simp: call_shapes_def d)
qed

text \<open>
  C5, amended: a call of \<open>state_forward\<close> without prior state, on a module built by
  \<open>__init__\<close> with a positive degree and a context chunk of shape \<open>(B, n, D)\<close>, succeeds;
  its output has shape \<open>(B, n, D)\<close>, the aggregate of the returned state has shape
  \<open>(B, n, expand \<cdot> D)\<close> and its count is \<open>n\<close>.
\<close>

theorem state_forward_shapes:
  assumes "initialised self" and "0 < order self"
    and "shape (context_of (xq, xc)) = [B, n, dim self]"
  shows "call_shapes (state_forward self xq xc None)
           = Inr ([B, n, dim self], [B, n, order_expand self * dim self], int n)"
  using state_forward_first[OF assms] by (auto simp: call_shapes_def)

theorem state_forward_shapes_witness:
  "call_shapes (state_forward module_1_2_1 (full [1, 1, 1] 0) (Some (full [2, 3, 1] 0)) None)
     = Inr ([2, 3, 1], [2, 3, 1], 3)"
proof -
  have i: "initialised module_1_2_1" and o: "0 < order module_1_2_1"
    using module_1_2_1_initialised by simp_all
  have d: "dim module_1_2_1 = 1" "order_expand module_1_2_1 = 1" by (simp_all add: module_1_2_1_def)
  have s1: "shape (context_of (full [1, 1, 1] 0, Some (full [2, 3, 1] 0))) = [2, 3, dim module_1_2_1]"
    by (simp add: context_of_def full_def d)
  from state_forward_shapes[OF i o s1] show ?thesis by (simp add: d)
qed

subsection \<open>C6: masks of unsupported rank\<close>

text \<open>
  C6: for a mask whose rank is neither 2 nor 3, aggregation raises the \<open>ValueError\<close> that
  names the rank, and returns no result.  The rank is tested after the polynomial expansion,
  so the statement is for an input of shape \<open>(B, T, D)\<close> with coefficients of shape \<open>(D, k)\<close>,
  on which the expansion succeeds.
\<close>

theorem unsupported_mask_rank:
  assumes "shape x = [B, T, D]" and "shape coeff = [D, nat k]" and "0 < k"
    and "length (shape m) \<noteq> 2" and "length (shape m) \<noteq> 3"
  shows "polynomial_aggregation x coeff k (Some m) = Inl (ValueError (length (shape m)))"
proof -
  from expansion_shape[OF assms(1-3)] obtain h where "expansion x coeff k = Inr h" by blast
  then show ?thesis using assms(4,5)
    by (simp add: polynomial_aggregation_def rbind_Inr rbind_Inl)
qed

theorem unsupported_mask_rank_witness:
  "polynomial_aggregation (full [1, 2, 1] 0) (of_rows [[1, 1]]) 2 (Some (full [2] 1))
     = Inl (ValueError 1) \<and>
   polynomial_aggregation (full [1, 2, 1] 0) (of_rows [[1, 1]]) 2 (Some (full [1, 1, 2, 2] 1))
     = Inl (ValueError 4)"
  using unsupported_mask_rank[of "full [1, 2, 1] 0" 1 2 1 "of_rows [[1, 1]]" 2 "full [2] 1"]
    unsupported_mask_rank[of "full [1, 2, 1] 0" 1 2 1 "of_rows [[1, 1]]" 2 "full [1, 1, 2, 2] 1"]
  by (simp add: full_def of_rows_def)

subsection \<open>C7: the count of a stream\<close>

text \<open>
  C7: when a run of \<open>state_forward\<close> calls, each on a context chunk of rank 3 and each
  receiving the state of the previous call, the first one none, returns without an exception,
  the count of the final state is the sum of the lengths of the chunks.
\<close>

theorem streaming_count_is_sum_of_lengths:
  assumes "initialised self"
    and "thread_state self None chunks = Inr st"
    and "list_all (\<lambda>c. length (shape (context_of c)) = 3) chunks"
  shows "count st = int (sum_list (map (\<lambda>c. shape (context_of c) ! 1) chunks))"
  using thread_state_count[OF assms] by (simp add: count_def)

theorem streaming_count_is_sum_of_lengths_witness:
  "map_sum id count
     (thread_state module_1_2_1 None
        [(full [1, 2, 1] 0, None), (full [7, 7] 0, Some (full [1, 1, 1] 0)), (full [1, 2, 1] 0, None)])
     = Inr 5"
proof -
  let ?c1 = "(full [1, 2, 1] 0, None :: tensor option)"
  let ?c2 = "(full [7, 7] 0, Some (full [1, 1, 1] 0))"
  let ?c3 = "(full [1, 2, 1] 0, None :: tensor option)"
  have i: "initialised module_1_2_1" and o: "0 < order module_1_2_1"
    using module_1_2_1_initialised by simp_all
  have d: "dim module_1_2_1 = 1" "order_expand module_1_2_1 = 1" by (simp_all add: module_1_2_1_def)
  have s1: "shape (context_of ?c1) = [1, 2, dim module_1_2_1]"
    by (simp add: context_of_def full_def d)
  have s2: "shape (context_of ?c2) = [1, 1, dim module_1_2_1]"
    by (simp add: context_of_def full_def d)
  from state_forward_first[OF i o s1] obtain o1 st1 where
    st1: "state_forward module_1_2_1 (fst ?c1) (snd ?c1) None = Inr (o1, st1)"
         "shape (state_h st1) = [1, 2, order_expand module_1_2_1 * dim module_1_2_1]"
    by auto
  have b1: "bdim 2 1 = Some 2" by (simp add: bdim_def)
  from state_forward_next(2)[OF i o s2 st1(2) b1] obtain o2 st2 where
    st2: "state_forward module_1_2_1 (fst ?c2) (snd ?c2) (Some st1) = Inr (o2, st2)"
         "shape (state_h st2) = [1, 2, order_expand module_1_2_1 * dim module_1_2_1]"
    by auto
  have b2: "bdim 2 2 = Some 2" by (simp add: bdim_def)
  from state_forward_next(2)[OF i o s1 st2(2) b2] obtain o3 st3 where
    st3: "state_forward module_1_2_1 (fst ?c3) (snd ?c3) (Some st2) = Inr (o3, st3)"
    by auto
  have run: "thread_state module_1_2_1 None [?c1, ?c2, ?c3] = Inr (Some st3)"
    using st1(1) st2(1) st3 by (simp add: rbind_Inr)
  have r3: "list_all (\<lambda>c. length (shape (context_of c)) = 3) [?c1, ?c2, ?c3]"
    by (simp add: context_of_def full_def)
  from streaming_count_is_sum_of_lengths[OF i run r3] have "count (Some st3) = 5"
    by (simp add: context_of_def full_def)
  then show ?thesis by (simp only: run map_sum.simps)
qed

subsection \<open>C8: no mask against a mask of ones\<close>




subsection \<open>C9: the query is not read when a context is given\<close>

text \<open>
  C9: when a context is supplied, \<open>forward\<close> returns the same result for any two queries,
  and so does \<open>state_forward\<close>, output and new state.
\<close>

theorem query_noninterference:
  "forward self xq1 (Some xc) msk = forward self xq2 (Some xc) msk \<and>
   state_forward self xq1 (Some xc) st = state_forward self xq2 (Some xc) st"
  by (simp add: forward_def state_forward_def)

subsection \<open>C10: a mask row of zeros\<close>



end
